theory Spec2Isabelle
  imports Main "HOL-Library.Multiset"
begin

section \<open>Data model\<close>

text \<open>
  The pipeline of \<^verbatim>\<open>PirateUserSearcherCLI.py\<close> lives in \<^verbatim>\<open>search\<close>, \<^verbatim>\<open>get_tasks\<close>,
  \<^verbatim>\<open>check_urls\<close>, \<^verbatim>\<open>sorter\<close> and \<^verbatim>\<open>printer\<close>. A listing is a Python dict with the
  keys \<^verbatim>\<open>id, name, username, status, size, added, seeders, info_hash\<close>. The remote
  service delivers \<^verbatim>\<open>size\<close>, \<^verbatim>\<open>added\<close> and \<^verbatim>\<open>seeders\<close> as strings; lines 133-136 replace
  them by integers. The record is therefore polymorphic in the type of these three
  fields. The keys \<^verbatim>\<open>id\<close> and \<^verbatim>\<open>size\<close> clash with constants of HOL and carry a suffix.
\<close>

record 'n listing =
  id_key :: string
  name :: string
  username :: string
  status :: string
  size_key :: 'n
  added :: 'n
  seeders :: 'n
  info_hash :: string

text \<open>
  \<^verbatim>\<open>check_urls\<close> adds the key \<^verbatim>\<open>code\<close> to a dict. \<open>None\<close> stands for a dict without
  that key.
\<close>

record item = "int listing" +
  code :: "int option"

text \<open>
  Exceptions are values. The handler of line 158 is bare, so the model never needs to
  tell the classes apart; they are kept for the places that let an exception escape.
\<close>

datatype error =
    RequestException
  | JSONDecodeError
  | ClientError
  | KeyError
  | ValueError
  | OverflowError
  | EOFError

text \<open>
  Everything the program does to the outside world is recorded, in order, as a trace of
  events: one constructor per \<^verbatim>\<open>print\<close> statement (with the interpolated values), per
  prompt of \<^verbatim>\<open>input\<close>, and per HTTP request. \<open>Shown\<close> stands for the eight lines 238-248
  printed for one record, \<open>ShownPart\<close> for the lines of that block printed before the
  size or the date failed to render, \<open>RelevantLinks d\<close> for lines 255-259 (the heading,
  the lines of the description \<open>d\<close> containing \<^verbatim>\<open>http\<close>, and an empty line).
\<close>

datatype event =
    Searching
  | ManyTerms
  | QueryGet string
  | FoundPotential nat
  | CheckingDead
  | ProbeBatch "string list"
  | FoundWorking nat
  | CouldNotFilter
  | AttemptMsg nat
  | SortHeader
  | SortPrompt
  | InvalidOption
  | Notice
  | Shown item
  | ShownPart item
  | DescrGet string
  | RelevantLinks string
  | ResortPrompt
  | ClearScreen
  | ClosingDown

text \<open>
  The state threaded through the program: the lines still waiting on standard input
  and the trace so far. \<^verbatim>\<open>input\<close> at the end of standard input raises \<^verbatim>\<open>EOFError\<close>.
\<close>

type_synonym world = "string list \<times> event list"

text \<open>
  What the program reads from outside itself. \<open>api_q i t\<close> is the outcome of
  \<^verbatim>\<open>requests.get(".../q.php", params={"q": t}).json()\<close> for the \<open>i\<close>-th term of the loop
  of line 118: a list of listings, or the exception raised (a response that is not a
  list of listings raises in line 125). \<open>probe n idx url\<close> is the outcome of the request
  for \<open>url\<close>, the \<open>idx\<close>-th task of the batch dispatched while \<^verbatim>\<open>counter\<close> is \<open>n\<close>: the
  status of the response, or the exception. \<open>api_t i\<close> is the outcome of lines 252-254
  for the identifier \<open>i\<close>: the description string, or the exception; the service is
  taken to answer the same identifier the same way throughout a run. \<open>py_int\<close> is
  Python's \<^verbatim>\<open>int\<close> on strings (\<open>None\<close> where it raises \<^verbatim>\<open>ValueError\<close>), \<open>fmt\<close> the float
  division and the \<^verbatim>\<open>datetime.fromtimestamp\<close> of lines 241 and 243, which raise on
  values out of their range, \<open>shuffle\<close> the permutation \<^verbatim>\<open>random.shuffle\<close> applies, and
  \<open>save\<close> the function \<^verbatim>\<open>save\<close> of line 277, which belongs to the CSV part of the program.
\<close>

record env =
  PIRATE_URL :: string
  api_q :: "nat \<Rightarrow> string \<Rightarrow> error + string listing list"
  probe :: "nat \<Rightarrow> nat \<Rightarrow> string \<Rightarrow> error + int"
  api_t :: "string \<Rightarrow> error + string"
  py_int :: "string \<Rightarrow> int option"
  fmt :: "item \<Rightarrow> error + unit"
  shuffle :: "item list \<Rightarrow> item list"
  save :: "world \<Rightarrow> (error + unit) \<times> world"

definition MAX_RESULTS_WITH_LINKS :: nat where
  "MAX_RESULTS_WITH_LINKS = 100"

section \<open>Query aggregation (lines 115-130)\<close>

text \<open>
  The loop of line 118 over the search terms, with \<^verbatim>\<open>combined_data_list\<close> as
  accumulator. Neither \<^verbatim>\<open>requests.get\<close> nor \<^verbatim>\<open>response.json()\<close> is inside a \<^verbatim>\<open>try\<close>: an
  exception leaves the loop and \<^verbatim>\<open>search\<close>. The inner loop of line 124 appends one
  filtered list per entry of \<^verbatim>\<open>usernames\<close>.
\<close>

fun query_loop ::
  "env \<Rightarrow> string list \<Rightarrow> nat \<Rightarrow> string list \<Rightarrow> string listing list list \<Rightarrow> event list
     \<Rightarrow> (error + string listing list list) \<times> event list" where
  "query_loop env usernames i [] combined_data_list out = (Inr combined_data_list, out)"
| "query_loop env usernames i (t # search_terms) combined_data_list out =
     (case api_q env i t of
        Inl e \<Rightarrow> (Inl e, out @ [QueryGet t])
      | Inr data \<Rightarrow>
          query_loop env usernames (Suc i) search_terms
            (combined_data_list
               @ map (\<lambda>user. filter (\<lambda>item. username item = user) data) usernames)
            (out @ [QueryGet t]))"

text \<open>Lines 115-130: the accumulated working list \<^verbatim>\<open>dict_list\<close>.\<close>

definition aggregate ::
  "env \<Rightarrow> string list \<Rightarrow> string list \<Rightarrow> event list
     \<Rightarrow> (error + string listing list) \<times> event list" where
  "aggregate env usernames search_terms out =
     (case query_loop env usernames 0 search_terms [] out of
        (Inl e, out') \<Rightarrow> (Inl e, out')
      | (Inr combined_data_list, out') \<Rightarrow>
          (let non_empty_data = filter (\<lambda>x. x \<noteq> []) combined_data_list;
               dict_list = concat non_empty_data
           in (Inr dict_list, out')))"

section \<open>Normalisation (lines 132-136) and deduplication (lines 138-140)\<close>

definition to_item :: "env \<Rightarrow> string listing \<Rightarrow> error + item" where
  "to_item env d =
     (case py_int env (added d) of
        None \<Rightarrow> Inl ValueError
      | Some a \<Rightarrow>
          (case py_int env (seeders d) of
             None \<Rightarrow> Inl ValueError
           | Some s \<Rightarrow>
               (case py_int env (size_key d) of
                  None \<Rightarrow> Inl ValueError
                | Some z \<Rightarrow>
                    Inr \<lparr>id_key = id_key d, name = name d, username = username d,
                         status = status d, size_key = z, added = a, seeders = s,
                         info_hash = info_hash d, code = None\<rparr>)))"

fun convert :: "env \<Rightarrow> string listing list \<Rightarrow> error + item list" where
  "convert env [] = Inr []"
| "convert env (d # dict_list) =
     (case to_item env d of
        Inl e \<Rightarrow> Inl e
      | Inr x \<Rightarrow> (case convert env dict_list of Inl e \<Rightarrow> Inl e | Inr xs \<Rightarrow> Inr (x # xs)))"

text \<open>
  Line 140: every element of \<^verbatim>\<open>dict_list\<close> is appended to \<^verbatim>\<open>unique_list\<close> unless an
  equal dict is already in it. Python compares dicts by their keys and values.
\<close>

fun unique_from :: "'a list \<Rightarrow> 'a list \<Rightarrow> 'a list" where
  "unique_from unique_list [] = unique_list"
| "unique_from unique_list (x # dict_list) =
     (if x \<in> set unique_list then unique_from unique_list dict_list
      else unique_from (unique_list @ [x]) dict_list)"

definition unique :: "'a list \<Rightarrow> 'a list" where
  "unique dict_list = unique_from [] dict_list"

section \<open>Liveness check (lines 65-100)\<close>

text \<open>
  \<^verbatim>\<open>get_tasks\<close> builds one request per record. A task is modelled by the URL it
  requests: the f-string of line 78, which ends in a line feed.
\<close>

definition get_tasks :: "env \<Rightarrow> item list \<Rightarrow> string list" where
  "get_tasks env item_list =
     map (\<lambda>item. PIRATE_URL env @ ''/torrent/'' @ id_key item @ [CHR 0x0A]) item_list"


text \<open>
  \<^verbatim>\<open>asyncio.gather\<close> returns the results in the order of its arguments, whatever the
  order in which the requests complete, and raises if one of them raises. Which
  exception it raises depends on that order; the only caller discards it, so a failed
  batch is \<open>None\<close>.
\<close>

fun gather :: "(error + 'a) list \<Rightarrow> 'a list option" where
  "gather [] = Some []"
| "gather (Inl e # rs) = None"
| "gather (Inr v # rs) = (case gather rs of None \<Rightarrow> None | Some vs \<Rightarrow> Some (v # vs))"

text \<open>
  \<^verbatim>\<open>check_urls\<close>: all tasks are awaited together, and only when every response is there
  are the codes written into the dicts, by index (lines 95-98).
\<close>

definition check_urls :: "env \<Rightarrow> nat \<Rightarrow> item list \<Rightarrow> item list option" where
  "check_urls env n item_list =
     (let tasks = get_tasks env item_list in
      case gather (map (\<lambda>(idx, url). probe env n idx url) (enumerate 0 tasks)) of
        None \<Rightarrow> None
      | Some codes \<Rightarrow>
          Some (map (\<lambda>(idx, item). item\<lparr>code := Some (codes ! idx)\<rparr>)
                  (enumerate 0 item_list)))"

section \<open>Sorting and display (lines 176-274)\<close>

text \<open>
  Python's \<^verbatim>\<open>sorted\<close> is stable, and with \<^verbatim>\<open>reverse=True\<close> it still keeps elements with
  equal keys in their original order: the list is reversed, sorted and reversed again.
\<close>

definition sorted_py :: "('a \<Rightarrow> 'k::linorder) \<Rightarrow> bool \<Rightarrow> 'a list \<Rightarrow> 'a list" where
  "sorted_py key reverse xs =
     (if reverse then rev (sort_key key (rev xs)) else sort_key key xs)"

text \<open>
  \<^verbatim>\<open>str.lower\<close> on the letters A to Z. The answers are only compared with one-letter
  ASCII strings, and no other character is mapped to one of those letters.
\<close>

definition lower_char :: "char \<Rightarrow> char" where
  "lower_char c =
     (case map_of (zip ''ABCDEFGHIJKLMNOPQRSTUVWXYZ'' ''abcdefghijklmnopqrstuvwxyz'') c of
        Some l \<Rightarrow> l
      | None \<Rightarrow> c)"

definition lower :: "string \<Rightarrow> string" where
  "lower s = map lower_char s"

text \<open>
  The loop of line 237. The request of line 252 and the two calls after it are not
  inside a \<^verbatim>\<open>try\<close>: an exception leaves the loop and \<^verbatim>\<open>printer\<close>.
\<close>

fun display :: "env \<Rightarrow> nat \<Rightarrow> item list \<Rightarrow> event list \<Rightarrow> (error + unit) \<times> event list" where
  "display env idx [] out = (Inr (), out)"
| "display env idx (item # results) out =
     (case fmt env item of
        Inl e \<Rightarrow> (Inl e, out @ [ShownPart item])
      | Inr _ \<Rightarrow>
          (if idx < MAX_RESULTS_WITH_LINKS then
             (case api_t env (id_key item) of
                Inl e \<Rightarrow> (Inl e, out @ [Shown item, DescrGet (id_key item)])
              | Inr description \<Rightarrow>
                  display env (Suc idx) results
                    (out @ [Shown item, DescrGet (id_key item), RelevantLinks description]))
           else display env (Suc idx) results (out @ [Shown item])))"

text \<open>
  Lines 194-217: the list \<^verbatim>\<open>sorter\<close> hands to \<^verbatim>\<open>printer\<close> for an answer, \<open>None\<close> for
  an answer that is not one of the six options.
\<close>

definition reorder :: "env \<Rightarrow> string \<Rightarrow> item list \<Rightarrow> item list option" where
  "reorder env choice item_list =
     (if choice = ''n'' then Some (sorted_py added True item_list)
      else if choice = ''o'' then Some (sorted_py added False item_list)
      else if choice = ''s'' then Some (sorted_py seeders True item_list)
      else if choice = ''l'' then Some (sorted_py size_key True item_list)
      else if choice = ''m'' then Some (sorted_py size_key False item_list)
      else if choice = ''r'' then Some (shuffle env item_list)
      else None)"

text \<open>
  \<^verbatim>\<open>sorter\<close> and \<^verbatim>\<open>printer\<close> call each other. \<open>sorter_loop\<close> is the loop of line 184,
  \<open>resort_loop\<close> the loop of line 262. Every turn of either loop reads one line.
\<close>

function sorter :: "env \<Rightarrow> item list \<Rightarrow> world \<Rightarrow> (error + unit) \<times> world"
and sorter_loop :: "env \<Rightarrow> item list \<Rightarrow> world \<Rightarrow> (error + unit) \<times> world"
and printer :: "env \<Rightarrow> item list \<Rightarrow> world \<Rightarrow> (error + unit) \<times> world"
and resort_loop :: "env \<Rightarrow> item list \<Rightarrow> world \<Rightarrow> (error + unit) \<times> world" where
  "sorter env item_list (inp, out) = sorter_loop env item_list (inp, out @ [SortHeader])"
| "sorter_loop env item_list ([], out) = (Inl EOFError, ([], out @ [SortPrompt]))"
| "sorter_loop env item_list (line # inp, out) =
     (case reorder env (lower line) item_list of
        Some sorted_list \<Rightarrow> printer env sorted_list (inp, out @ [SortPrompt])
      | None \<Rightarrow> sorter_loop env item_list (inp, out @ [SortPrompt, InvalidOption]))"
| "printer env results (inp, out) =
     (case display env 0 results (out @ [Notice]) of
        (Inl e, out') \<Rightarrow> (Inl e, (inp, out'))
      | (Inr _, out') \<Rightarrow> resort_loop env results (inp, out'))"
| "resort_loop env results ([], out) = (Inl EOFError, ([], out @ [ResortPrompt]))"
| "resort_loop env results (line # inp, out) =
     (let re_sort = lower line; out' = out @ [ResortPrompt] in
      if re_sort = ''y'' then sorter env results (inp, out' @ [ClearScreen])
      else if re_sort = ''n'' then save env (inp, out' @ [ClosingDown])
      else resort_loop env results (inp, out' @ [InvalidOption]))"
  by pat_completeness auto
termination
  by (relation "measure (\<lambda>x. case x of
         Inl (Inl (env, xs, w)) \<Rightarrow> 2 * length (fst w) + 1
       | Inl (Inr (env, xs, w)) \<Rightarrow> 2 * length (fst w)
       | Inr (Inl (env, xs, w)) \<Rightarrow> 2 * length (fst w) + 1
       | Inr (Inr (env, xs, w)) \<Rightarrow> 2 * length (fst w))") auto

section \<open>The retry loop (lines 145-173) and \<^verbatim>\<open>search\<close>\<close>

text \<open>
  One pass through the \<^verbatim>\<open>try\<close> block of lines 147-156. \<open>Inl w\<close>: the block reached the
  \<^verbatim>\<open>break\<close> of line 156. \<open>Inr (unique_list, w)\<close>: an exception was raised, by
  \<^verbatim>\<open>check_urls\<close> or by \<^verbatim>\<open>sorter\<close>, and control is in the handler with this value of
  \<^verbatim>\<open>unique_list\<close> (line 151 has assigned it if \<^verbatim>\<open>check_urls\<close> returned).
\<close>

definition attempt :: "env \<Rightarrow> nat \<Rightarrow> item list \<Rightarrow> world \<Rightarrow> world + item list \<times> world" where
  "attempt env counter unique_list w =
     (case w of (inp, out) \<Rightarrow>
        (let out1 = out @ [ProbeBatch (get_tasks env unique_list)] in
         case check_urls env counter unique_list of
           None \<Rightarrow> Inr (unique_list, (inp, out1))
         | Some checked \<Rightarrow>
             (let working_list = filter (\<lambda>item. code item \<noteq> Some 404) checked in
              case sorter env working_list (inp, out1 @ [FoundWorking (length working_list)]) of
                (Inr _, w') \<Rightarrow> Inl w'
              | (Inl e, w') \<Rightarrow> Inr (checked, w'))))"

text \<open>
  The \<^verbatim>\<open>while True\<close> of line 146 with the handler of lines 158-173. The call of
  \<^verbatim>\<open>sorter\<close> in line 163 is outside the \<^verbatim>\<open>try\<close>.
\<close>

function retry_loop :: "env \<Rightarrow> nat \<Rightarrow> item list \<Rightarrow> world \<Rightarrow> (error + unit) \<times> world" where
  "retry_loop env counter unique_list w =
     (case attempt env counter unique_list w of
        Inl w' \<Rightarrow> (Inr (), w')
      | Inr (unique_list', (inp, out)) \<Rightarrow>
          (if counter + 1 > 3 then sorter env unique_list' (inp, out @ [CouldNotFilter])
           else retry_loop env (counter + 1) unique_list' (inp, out @ [AttemptMsg (counter + 1)])))"
  by pat_completeness auto
termination
  by (relation "measure (\<lambda>(env, counter, unique_list, w). 4 - counter)") auto

declare retry_loop.simps [simp del]

text \<open>Lines 111-144: everything before the retry loop.\<close>

definition prepare ::
  "env \<Rightarrow> string list \<Rightarrow> string list \<Rightarrow> event list \<Rightarrow> (error + item list) \<times> event list" where
  "prepare env usernames search_terms out =
     (let out1 = out @ [Searching] @ (if length search_terms > 50 then [ManyTerms] else [])
      in case aggregate env usernames search_terms out1 of
           (Inl e, out2) \<Rightarrow> (Inl e, out2)
         | (Inr dict_list, out2) \<Rightarrow>
             (case convert env dict_list of
                Inl e \<Rightarrow> (Inl e, out2)
              | Inr items \<Rightarrow>
                  (let unique_list = unique items
                   in (Inr unique_list,
                       out2 @ [FoundPotential (length unique_list), CheckingDead]))))"

definition search :: "env \<Rightarrow> string list \<Rightarrow> string list \<Rightarrow> world \<Rightarrow> (error + unit) \<times> world" where
  "search env usernames search_terms w =
     (case w of (inp, out) \<Rightarrow>
        (case prepare env usernames search_terms out of
           (Inl e, out') \<Rightarrow> (Inl e, (inp, out'))
         | (Inr unique_list, out') \<Rightarrow> retry_loop env 0 unique_list (inp, out')))"

section \<open>Notions used in the statements\<close>


text \<open>
  The order section 4.1 of the specification describes for the accumulated list: the
  terms in their order, and for each term the kept records in the order of the response.
\<close>

definition response_order :: "string list \<Rightarrow> string listing list list \<Rightarrow> string listing list" where
  "response_order usernames datas =
     concat (map (filter (\<lambda>item. username item \<in> set usernames)) datas)"

text \<open>
  What the loops of lines 118-130 accumulate from the responses \<open>datas\<close>: for each
  response, one block per entry of \<^verbatim>\<open>usernames\<close>.
\<close>

definition blocks :: "string list \<Rightarrow> string listing list list \<Rightarrow> string listing list" where
  "blocks usernames datas =
     concat (map (\<lambda>data. concat (map (\<lambda>user. filter (\<lambda>item. username item = user) data) usernames))
               datas)"

section \<open>Example data\<close>

text \<open>
  A concrete environment for the example runs. \<open>dec_int\<close> reads a non-empty string of
  decimal digits, on which it agrees with Python's \<^verbatim>\<open>int\<close>.
\<close>

definition dec_int :: "string \<Rightarrow> int option" where
  "dec_int s =
     (if s \<noteq> [] \<and> list_all (\<lambda>c. c \<in> set ''0123456789'') s
      then Some (foldl (\<lambda>a c. 10 * a + (of_char c - 48)) 0 s) else None)"

definition ex_raw :: "string \<Rightarrow> string \<Rightarrow> string \<Rightarrow> string listing" where
  "ex_raw i u a =
     \<lparr>id_key = i, name = ''file'', username = u, status = ''vip'', size_key = ''1000'',
      added = a, seeders = ''5'', info_hash = ''AB''\<rparr>"

definition ex_item :: "string \<Rightarrow> string \<Rightarrow> int \<Rightarrow> int option \<Rightarrow> item" where
  "ex_item i u a c =
     \<lparr>id_key = i, name = ''file'', username = u, status = ''vip'', size_key = 1000,
      added = a, seeders = 5, info_hash = ''AB'', code = c\<rparr>"


text \<open>
  The service answers every query with one record of Bob and two of Alice, every probe
  with status 200 and every description request with a link.
\<close>

definition ex_env :: env where
  "ex_env =
     \<lparr>PIRATE_URL = ''https://tpb.example'',
      api_q = (\<lambda>i t. Inr [ex_raw ''1'' ''Bob'' ''10'', ex_raw ''2'' ''Alice'' ''20'',
                          ex_raw ''3'' ''Alice'' ''30'']),
      probe = (\<lambda>n idx url. Inr 200),
      api_t = (\<lambda>i. Inr ''http://img.example''),
      py_int = dec_int,
      fmt = (\<lambda>x. Inr ()),
      shuffle = (\<lambda>xs. xs),
      save = (\<lambda>w. (Inr (), w))\<rparr>"

text \<open>The same service, except that the query for the term \<^verbatim>\<open>a\<close> fails.\<close>

definition ex_env_q :: env where
  "ex_env_q = ex_env\<lparr>api_q := (\<lambda>i t. if t = ''a'' then Inl RequestException else api_q ex_env i t)\<rparr>"

text \<open>The same service with every probe failing, and with probes answering 404, 200, 500.\<close>

definition ex_env_dead :: env where
  "ex_env_dead = ex_env\<lparr>probe := (\<lambda>n idx url. Inl ClientError)\<rparr>"

definition ex_env_p :: env where
  "ex_env_p = ex_env\<lparr>probe := (\<lambda>n idx url. Inr (if idx = 0 then 404 else if idx = 1 then 200 else 500))\<rparr>"

text \<open>The same service, except that the description request for the identifier 2 fails.\<close>

definition ex_env_t :: env where
  "ex_env_t = ex_env\<lparr>api_t := (\<lambda>i. if i = ''2'' then Inl RequestException else api_t ex_env i)\<rparr>"

section \<open>Deduplication\<close>

lemma unique_from_append:
  "unique_from acc (xs @ ys) = unique_from (unique_from acc xs) ys"
  by (induction xs arbitrary: acc) simp_all

lemma set_unique_from: "set (unique_from acc xs) = set acc \<union> set xs"
  by (induction xs arbitrary: acc) auto

lemma set_unique: "set (unique xs) = set xs"
  by (simp add: unique_def set_unique_from)

lemma unique_Nil: "unique [] = []"
  by (simp add: unique_def)

lemma unique_snoc:
  "unique (xs @ [x]) = (if x \<in> set xs then unique xs else unique xs @ [x])"
proof -
  have "unique (xs @ [x]) = unique_from (unique xs) [x]"
    by (simp add: unique_def unique_from_append)
  then show ?thesis
    by (simp add: set_unique)
qed

lemma unique_rev_remdups: "unique xs = rev (remdups (rev xs))"
  by (induction xs rule: rev_induct) (simp_all add: unique_Nil unique_snoc)

lemma distinct_unique: "distinct (unique xs)"
  by (simp add: unique_rev_remdups)

lemma unique_distinct_id: "distinct xs \<Longrightarrow> unique xs = xs"
  by (simp add: unique_rev_remdups distinct_remdups_id)

lemma takeWhile_unique: "takeWhile P (unique xs) = unique (takeWhile P xs)"
proof (induction xs rule: rev_induct)
  case Nil
  show ?case by (simp add: unique_Nil)
next
  case (snoc x xs)
  show ?case
  proof (cases "\<forall>y\<in>set xs. P y")
    case True
    then have all: "takeWhile P xs = xs" "takeWhile P (unique xs) = unique xs"
      by (simp_all add: set_unique)
    show ?thesis
      using True all by (cases "P x") (auto simp: unique_snoc takeWhile_append set_unique)
  next
    case False
    then show ?thesis
      using snoc by (auto simp: unique_snoc takeWhile_append set_unique)
  qed
qed

text \<open>
  C7. The deduplication of line 140 returns a list without duplicates that holds
  exactly the records of its input, in first-seen order: for every record \<open>b\<close>, what
  stands before \<open>b\<close> in the output is the deduplication of what stands before the first
  \<open>b\<close> in the input. An input without duplicates is returned as it is, and
  deduplicating the output again changes nothing.
\<close>

theorem unique_first_seen:
  "distinct (unique xs)
   \<and> set (unique xs) = set xs
   \<and> (\<forall>b. takeWhile (\<lambda>y. y \<noteq> b) (unique xs) = unique (takeWhile (\<lambda>y. y \<noteq> b) xs))
   \<and> (distinct xs \<longrightarrow> unique xs = xs)
   \<and> unique (unique xs) = unique xs"
  by (simp add: distinct_unique set_unique takeWhile_unique unique_distinct_id)

theorem unique_first_seen_witness:
  "unique [3, 1, 2 :: nat] = [3, 1, 2] \<and> unique [1, 2, 1, 3, 2 :: nat] = [1, 2, 3]
   \<and> unique (unique [1, 2, 1, 3, 2 :: nat]) = [1, 2, 3]"
proof -
  have d: "distinct [3, 1, 2 :: nat]" by simp
  have a: "unique [3, 1, 2 :: nat] = [3, 1, 2]"
    using unique_first_seen [of "[3, 1, 2 :: nat]"] d by blast
  have b: "unique [1, 2, 1, 3, 2 :: nat] = [1, 2, 3]"
    by (simp add: unique_def)
  have c: "unique (unique [1, 2, 1, 3, 2 :: nat]) = unique [1, 2, 1, 3, 2 :: nat]"
    using unique_first_seen [of "[1, 2, 1, 3, 2 :: nat]"] by blast
  show ?thesis using a b c by simp
qed

section \<open>Sorting\<close>









section \<open>The probe request\<close>

text \<open>The string \<^verbatim>\<open>get_tasks\<close> builds for a record ends in the line feed of line 78.\<close>

lemma get_tasks_line_feed:
  "get_tasks ex_env [ex_item ''1'' ''Bob'' 10 None] = [''https://tpb.example/torrent/1'' @ [CHR 0x0A]]"
  by (simp add: get_tasks_def ex_env_def ex_item_def)





section \<open>Query aggregation\<close>

lemma concat_filter_non_empty: "concat (filter (\<lambda>x. x \<noteq> []) xss) = concat xss"
  by (induction xss) simp_all

lemma query_loop_ok:
  assumes "length datas = length ts"
      and "\<forall>j<length ts. api_q env (i + j) (ts ! j) = Inr (datas ! j)"
  shows "query_loop env us i ts acc out =
           (Inr (acc @ concat (map (\<lambda>data. map (\<lambda>user. filter (\<lambda>item. username item = user) data) us) datas)),
            out @ map QueryGet ts)"
  using assms
proof (induction ts arbitrary: i datas acc out)
  case Nil
  then show ?case by simp
next
  case (Cons t ts)
  from Cons.prems(1) obtain d ds where datas: "datas = d # ds" and len: "length ds = length ts"
    by (cases datas) auto
  from Cons.prems(2) have hd: "api_q env i t = Inr d"
    using datas by (auto dest: spec [of _ 0])
  have tl: "\<forall>j<length ts. api_q env (Suc i + j) (ts ! j) = Inr (ds ! j)"
  proof (intro allI impI)
    fix j assume "j < length ts"
    then have "api_q env (i + Suc j) ((t # ts) ! Suc j) = Inr (datas ! Suc j)"
      using Cons.prems(2) by (auto simp del: nth_Cons_Suc)
    then show "api_q env (Suc i + j) (ts ! j) = Inr (ds ! j)"
      by (simp add: datas)
  qed
  show ?case
    using Cons.IH [OF len tl] hd by (simp add: datas)
qed

lemma query_loop_abort:
  assumes "k < length ts"
      and "api_q env (i + k) (ts ! k) = Inl e"
      and "\<forall>j<k. \<exists>d. api_q env (i + j) (ts ! j) = Inr d"
  shows "query_loop env us i ts acc out = (Inl e, out @ map QueryGet (take (Suc k) ts))"
  using assms
proof (induction ts arbitrary: i k acc out)
  case Nil
  then show ?case by simp
next
  case (Cons t ts)
  show ?case
  proof (cases k)
    case 0
    with Cons.prems show ?thesis by simp
  next
    case (Suc k')
    from Cons.prems(3) Suc obtain d where hd: "api_q env i t = Inr d"
      by (auto dest: spec [of _ 0])
    have a: "k' < length ts" using Cons.prems(1) Suc by simp
    have b: "api_q env (Suc i + k') (ts ! k') = Inl e" using Cons.prems(2) Suc by simp
    have c: "\<forall>j<k'. \<exists>d. api_q env (Suc i + j) (ts ! j) = Inr d"
    proof (intro allI impI)
      fix j assume "j < k'"
      then have "\<exists>d. api_q env (i + Suc j) ((t # ts) ! Suc j) = Inr d"
        using Cons.prems(3) Suc by (auto simp del: nth_Cons_Suc)
      then show "\<exists>d. api_q env (Suc i + j) (ts ! j) = Inr d" by simp
    qed
    show ?thesis
      using Cons.IH [OF a b c] hd Suc by simp
  qed
qed

lemma query_loop_responses:
  assumes "query_loop env us i ts acc out = (Inr c, out')"
  shows "\<exists>datas. length datas = length ts \<and> (\<forall>j<length ts. api_q env (i + j) (ts ! j) = Inr (datas ! j))"
  using assms
proof (induction ts arbitrary: i acc out)
  case Nil
  then show ?case by simp
next
  case (Cons t ts)
  from Cons.prems obtain d where hd: "api_q env i t = Inr d"
    by (auto split: sum.splits)
  with Cons.prems obtain acc' out1 where "query_loop env us (Suc i) ts acc' out1 = (Inr c, out')"
    by auto
  from Cons.IH [OF this] obtain ds where ds: "length ds = length ts"
      "\<forall>j<length ts. api_q env (Suc i + j) (ts ! j) = Inr (ds ! j)"
    by blast
  have "\<forall>j<length (t # ts). api_q env (i + j) ((t # ts) ! j) = Inr ((d # ds) ! j)"
  proof (intro allI impI)
    fix j assume "j < length (t # ts)"
    then show "api_q env (i + j) ((t # ts) ! j) = Inr ((d # ds) ! j)"
      using hd ds by (cases j) auto
  qed
  then show ?case
    using ds(1) by (intro exI [of _ "d # ds"]) simp
qed

lemma query_loop_first_failure:
  assumes "query_loop env us i ts acc out = (Inl e, out')"
  shows "\<exists>k<length ts. api_q env (i + k) (ts ! k) = Inl e \<and> (\<forall>j<k. \<exists>d. api_q env (i + j) (ts ! j) = Inr d)"
  using assms
proof (induction ts arbitrary: i acc out)
  case Nil
  then show ?case by simp
next
  case (Cons t ts)
  show ?case
  proof (cases "api_q env i t")
    case (Inl e')
    with Cons.prems have "e' = e" by simp
    with Inl show ?thesis by (intro exI [of _ 0]) simp
  next
    case (Inr d)
    with Cons.prems obtain acc' out1 where "query_loop env us (Suc i) ts acc' out1 = (Inl e, out')"
      by auto
    from Cons.IH [OF this] obtain k where k: "k < length ts" "api_q env (Suc i + k) (ts ! k) = Inl e"
        "\<forall>j<k. \<exists>d. api_q env (Suc i + j) (ts ! j) = Inr d"
      by blast
    have "\<forall>j<Suc k. \<exists>d. api_q env (i + j) ((t # ts) ! j) = Inr d"
    proof (intro allI impI)
      fix j assume "j < Suc k"
      then show "\<exists>d. api_q env (i + j) ((t # ts) ! j) = Inr d"
        using Inr k(3) by (cases j) auto
    qed
    then show ?thesis
      using k(1,2) by (intro exI [of _ "Suc k"]) simp
  qed
qed

lemma concat_concat_map: "concat (concat (map f xs)) = concat (map (\<lambda>x. concat (f x)) xs)"
  by (induction xs) simp_all

lemma aggregate_ok:
  assumes "length datas = length ts"
      and "\<forall>j<length ts. api_q env j (ts ! j) = Inr (datas ! j)"
  shows "aggregate env us ts out = (Inr (blocks us datas), out @ map QueryGet ts)"
proof -
  have "query_loop env us 0 ts [] out =
          (Inr ([] @ concat (map (\<lambda>data. map (\<lambda>user. filter (\<lambda>item. username item = user) data) us) datas)),
           out @ map QueryGet ts)"
    by (rule query_loop_ok) (use assms in simp_all)
  then show ?thesis
    by (simp add: aggregate_def concat_filter_non_empty concat_concat_map blocks_def)
qed

lemma aggregate_abort:
  assumes "k < length ts"
      and "api_q env k (ts ! k) = Inl e"
      and "\<forall>j<k. \<exists>d. api_q env j (ts ! j) = Inr d"
  shows "aggregate env us ts out = (Inl e, out @ map QueryGet (take (Suc k) ts))"
proof -
  have "query_loop env us 0 ts [] out = (Inl e, out @ map QueryGet (take (Suc k) ts))"
    by (rule query_loop_abort) (use assms in simp_all)
  then show ?thesis
    by (simp add: aggregate_def)
qed

lemma aggregate_cases:
  fixes env :: env
  obtains (ok) datas where "length datas = length ts"
      "\<forall>j<length ts. api_q env j (ts ! j) = Inr (datas ! j)"
  | (abort) k e where "k < length ts" "api_q env k (ts ! k) = Inl e"
      "\<forall>j<k. \<exists>d. api_q env j (ts ! j) = Inr d"
proof (cases "query_loop env [] 0 ts [] []")
  case (Pair r out')
  show ?thesis
  proof (cases r)
    case (Inl e)
    with Pair query_loop_first_failure [of env "[]" 0 ts "[]" "[]" e out'] abort
    show ?thesis by auto
  next
    case (Inr c)
    with Pair query_loop_responses [of env "[]" 0 ts "[]" "[]" c out'] ok
    show ?thesis by auto
  qed
qed

lemma set_blocks: "set (blocks us datas) = {x. \<exists>d\<in>set datas. x \<in> set d \<and> username x \<in> set us}"
  by (auto simp: blocks_def)


text \<open>
  C6. Every record of the accumulated list \<^verbatim>\<open>dict_list\<close> has a \<^verbatim>\<open>username\<close> that is one
  of the supplied identities, whatever the terms and identities are.
\<close>

theorem aggregate_only_supplied_identities:
  assumes "aggregate env usernames search_terms out = (Inr dict_list, out')"
  shows "\<forall>item\<in>set dict_list. username item \<in> set usernames"
proof -
  from assms obtain c where q: "query_loop env usernames 0 search_terms [] out = (Inr c, out')"
    by (auto simp: aggregate_def split: prod.splits sum.splits)
  from query_loop_responses [OF q] obtain datas where d: "length datas = length search_terms"
      "\<forall>j<length search_terms. api_q env j (search_terms ! j) = Inr (datas ! j)"
    by auto
  from aggregate_ok [OF d] assms have "dict_list = blocks usernames datas"
    by simp
  then show ?thesis
    by (simp add: set_blocks)
qed

theorem aggregate_only_supplied_identities_witness:
  "aggregate ex_env [''Alice''] [''linux''] []
     = (Inr [ex_raw ''2'' ''Alice'' ''20'', ex_raw ''3'' ''Alice'' ''30''], [QueryGet ''linux''])
   \<and> username (ex_raw ''2'' ''Alice'' ''20'') \<in> set [''Alice'']
   \<and> username (ex_raw ''3'' ''Alice'' ''30'') \<in> set [''Alice'']"
proof -
  have a: "aggregate ex_env [''Alice''] [''linux''] []
             = (Inr [ex_raw ''2'' ''Alice'' ''20'', ex_raw ''3'' ''Alice'' ''30''], [QueryGet ''linux''])"
    by (simp add: aggregate_def ex_env_def ex_raw_def)
  have "\<forall>item\<in>set [ex_raw ''2'' ''Alice'' ''20'', ex_raw ''3'' ''Alice'' ''30'']. username item \<in> set [''Alice'']"
    by (rule aggregate_only_supplied_identities [OF a])
  then show ?thesis
    using a by simp
qed

text \<open>
  C5, as the specification states it, fails: with the identities Alice and Bob and a
  response that lists a record of Bob before two records of Alice, the accumulated
  list has the records of Alice first, which is not the order of the response.
\<close>

theorem aggregate_response_order_counterexample:
  "aggregate ex_env [''Alice'', ''Bob''] [''linux''] []
     = (Inr [ex_raw ''2'' ''Alice'' ''20'', ex_raw ''3'' ''Alice'' ''30'', ex_raw ''1'' ''Bob'' ''10''],
        [QueryGet ''linux''])
   \<and> api_q ex_env 0 ''linux''
     = Inr [ex_raw ''1'' ''Bob'' ''10'', ex_raw ''2'' ''Alice'' ''20'', ex_raw ''3'' ''Alice'' ''30'']
   \<and> response_order [''Alice'', ''Bob'']
        [[ex_raw ''1'' ''Bob'' ''10'', ex_raw ''2'' ''Alice'' ''20'', ex_raw ''3'' ''Alice'' ''30'']]
     = [ex_raw ''1'' ''Bob'' ''10'', ex_raw ''2'' ''Alice'' ''20'', ex_raw ''3'' ''Alice'' ''30'']
   \<and> fst (aggregate ex_env [''Alice'', ''Bob''] [''linux''] [])
     \<noteq> Inr (response_order [''Alice'', ''Bob'']
        [[ex_raw ''1'' ''Bob'' ''10'', ex_raw ''2'' ''Alice'' ''20'', ex_raw ''3'' ''Alice'' ''30'']])"
  by (simp add: aggregate_def response_order_def ex_env_def ex_raw_def)

text \<open>
  C5, amended. The accumulated list is ordered by search term, within a term by the
  entry of the identity list (one block per entry, in the order of that list), and
  within a block by the order of the response.
\<close>

theorem aggregate_block_order:
  assumes "length datas = length search_terms"
      and "\<forall>j<length search_terms. api_q env j (search_terms ! j) = Inr (datas ! j)"
  shows "aggregate env usernames search_terms out
           = (Inr (concat (map (\<lambda>data. concat (map (\<lambda>user. filter (\<lambda>item. username item = user) data)
                                                 usernames)) datas)),
              out @ map QueryGet search_terms)"
  using aggregate_ok [OF assms] by (simp add: blocks_def)

theorem aggregate_block_order_witness:
  "aggregate ex_env [''Alice'', ''Bob''] [''linux''] []
     = (Inr [ex_raw ''2'' ''Alice'' ''20'', ex_raw ''3'' ''Alice'' ''30'', ex_raw ''1'' ''Bob'' ''10''],
        [QueryGet ''linux''])"
proof -
  let ?d = "[ex_raw ''1'' ''Bob'' ''10'', ex_raw ''2'' ''Alice'' ''20'', ex_raw ''3'' ''Alice'' ''30'']"
  have l: "length [?d] = length [''linux'']" by simp
  have r: "\<forall>j<length [''linux'']. api_q ex_env j ([''linux''] ! j) = Inr ([?d] ! j)"
    by (simp add: ex_env_def)
  show ?thesis
    using aggregate_block_order [OF l r, of "[''Alice'', ''Bob'']" "[]"]
    by (simp add: ex_raw_def)
qed

text \<open>
  C3, as the specification states it, fails: when the query for the first of two terms
  fails, \<^verbatim>\<open>search\<close> ends with that exception, the second term is never queried although
  the service would have answered it, and nothing is read or displayed.
\<close>

theorem search_query_failure_counterexample:
  "search ex_env_q [''Alice''] [''a'', ''b''] ([''n'', ''n''], [])
     = (Inl RequestException, ([''n'', ''n''], [Searching, QueryGet ''a'']))
   \<and> api_q ex_env_q 1 ''b''
     = Inr [ex_raw ''1'' ''Bob'' ''10'', ex_raw ''2'' ''Alice'' ''20'', ex_raw ''3'' ''Alice'' ''30'']"
  by (simp add: search_def prepare_def aggregate_def ex_env_q_def ex_env_def)

text \<open>
  C3, amended. A failure of the query for a term ends \<^verbatim>\<open>search\<close> with that failure:
  the terms up to the failing one have been queried, no later term is, and no list
  reaches the later stages.
\<close>

theorem search_query_failure_aborts:
  assumes "k < length search_terms"
      and "api_q env k (search_terms ! k) = Inl e"
      and "\<forall>j<k. \<exists>d. api_q env j (search_terms ! j) = Inr d"
  shows "search env usernames search_terms (inp, out)
           = (Inl e, (inp, out @ [Searching] @ (if length search_terms > 50 then [ManyTerms] else [])
                             @ map QueryGet (take (Suc k) search_terms)))"
  using aggregate_abort [OF assms] by (simp add: search_def prepare_def)

theorem search_query_failure_aborts_witness:
  "search ex_env_q [''Alice''] [''b'', ''a'', ''c''] ([''n''], [])
     = (Inl RequestException, ([''n''], [Searching, QueryGet ''b'', QueryGet ''a'']))"
proof -
  have a: "(1::nat) < length [''b'', ''a'', ''c'']" by simp
  have b: "api_q ex_env_q 1 ([''b'', ''a'', ''c''] ! 1) = Inl RequestException"
    by (simp add: ex_env_q_def)
  have c: "\<forall>j<1. \<exists>d. api_q ex_env_q j ([''b'', ''a'', ''c''] ! j) = Inr d"
    by (simp add: ex_env_q_def ex_env_def)
  show ?thesis
    using search_query_failure_aborts [OF a b c, of "[''Alice'']" "[''n'']" "[]"] by simp
qed


section \<open>Liveness check and retry\<close>

lemmas ex_defs = ex_env_def ex_env_dead_def ex_env_p_def ex_env_t_def ex_raw_def ex_item_def dec_int_def
lemmas run_defs = prepare_def aggregate_def to_item_def unique_def get_tasks_def
  lower_def lower_char_def reorder_def sorted_py_def MAX_RESULTS_WITH_LINKS_def

lemma gather_Some:
  "length vs = length rs \<Longrightarrow> \<forall>i<length rs. rs ! i = Inr (vs ! i) \<Longrightarrow> gather rs = Some vs"
proof (induction rs arbitrary: vs)
  case Nil
  then show ?case by simp
next
  case (Cons r rs)
  from Cons.prems(1) obtain v vs' where vs: "vs = v # vs'" and len: "length vs' = length rs"
    by (cases vs) auto
  from Cons.prems(2) have r: "r = Inr v"
    using vs by (auto dest: spec [of _ 0])
  have "\<forall>i<length rs. rs ! i = Inr (vs' ! i)"
  proof (intro allI impI)
    fix i assume "i < length rs"
    then have "(r # rs) ! Suc i = Inr (vs ! Suc i)"
      using Cons.prems(2) by (auto simp del: nth_Cons_Suc)
    then show "rs ! i = Inr (vs' ! i)" by (simp add: vs)
  qed
  from Cons.IH [OF len this] r vs show ?case by simp
qed

lemma gather_None: "i < length rs \<Longrightarrow> rs ! i = Inl e \<Longrightarrow> gather rs = None"
proof (induction rs arbitrary: i)
  case Nil
  then show ?case by simp
next
  case (Cons r rs)
  show ?case
  proof (cases i)
    case 0
    with Cons.prems show ?thesis by simp
  next
    case (Suc j)
    with Cons.prems have "gather rs = None"
      by (auto intro: Cons.IH)
    then show ?thesis by (cases r) simp_all
  qed
qed

lemma length_get_tasks: "length (get_tasks env item_list) = length item_list"
  by (simp add: get_tasks_def)

lemma responses_nth:
  "idx < length tasks \<Longrightarrow>
     map (\<lambda>(idx, url). probe env n idx url) (enumerate 0 tasks) ! idx = probe env n idx (tasks ! idx)"
  by (simp add: nth_enumerate_eq)

lemma check_urls_Some:
  assumes "\<forall>idx<length item_list. probe env n idx (get_tasks env item_list ! idx) = Inr (st idx)"
  shows "check_urls env n item_list
           = Some (map (\<lambda>i. (item_list ! i)\<lparr>code := Some (st i)\<rparr>) [0..<length item_list])"
proof -
  let ?rs = "map (\<lambda>(idx, url). probe env n idx url) (enumerate 0 (get_tasks env item_list))"
  let ?codes = "map st [0..<length item_list]"
  have "gather ?rs = Some ?codes"
  proof (rule gather_Some)
    show "length ?codes = length ?rs" by (simp add: length_get_tasks)
    show "\<forall>i<length ?rs. ?rs ! i = Inr (?codes ! i)"
      using assms by (simp add: length_get_tasks nth_enumerate_eq)
  qed
  moreover have "map (\<lambda>(idx, item). item\<lparr>code := Some (?codes ! idx)\<rparr>) (enumerate 0 item_list)
                   = map (\<lambda>i. (item_list ! i)\<lparr>code := Some (st i)\<rparr>) [0..<length item_list]"
    by (rule nth_equalityI) (simp_all add: nth_enumerate_eq)
  ultimately show ?thesis
    by (simp add: check_urls_def)
qed

lemma check_urls_None:
  assumes "idx < length item_list"
      and "probe env n idx (get_tasks env item_list ! idx) = Inl e"
  shows "check_urls env n item_list = None"
proof -
  let ?rs = "map (\<lambda>(idx, url). probe env n idx url) (enumerate 0 (get_tasks env item_list))"
  have "gather ?rs = None"
  proof (rule gather_None)
    show "idx < length ?rs" using assms(1) by (simp add: length_get_tasks)
    show "?rs ! idx = Inl e" using assms by (simp add: length_get_tasks nth_enumerate_eq)
  qed
  then show ?thesis
    by (simp add: check_urls_def)
qed

lemma attempt_failed:
  "check_urls env counter unique_list = None \<Longrightarrow>
     attempt env counter unique_list (inp, out)
       = Inr (unique_list, (inp, out @ [ProbeBatch (get_tasks env unique_list)]))"
  by (simp add: attempt_def)

lemma retry_loop_again:
  assumes "check_urls env counter unique_list = None" and "counter < 3"
  shows "retry_loop env counter unique_list (inp, out)
           = retry_loop env (Suc counter) unique_list
               (inp, out @ [ProbeBatch (get_tasks env unique_list), AttemptMsg (Suc counter)])"
  using assms by (subst retry_loop.simps) (simp add: attempt_failed)

lemma retry_loop_give_up:
  assumes "check_urls env counter unique_list = None" and "3 \<le> counter"
  shows "retry_loop env counter unique_list (inp, out)
           = sorter env unique_list (inp, out @ [ProbeBatch (get_tasks env unique_list), CouldNotFilter])"
  using assms by (subst retry_loop.simps) (simp add: attempt_failed)

lemma to_item_code: "to_item env d = Inr x \<Longrightarrow> code x = None"
  by (auto simp: to_item_def split: option.splits)

lemma convert_code: "convert env ds = Inr xs \<Longrightarrow> \<forall>x\<in>set xs. code x = None"
proof (induction ds arbitrary: xs)
  case Nil
  then show ?case by simp
next
  case (Cons d ds)
  then show ?case
    by (auto split: sum.splits dest: to_item_code)
qed

lemma prepare_code:
  assumes "prepare env usernames search_terms out = (Inr unique_list, out')"
  shows "\<forall>x\<in>set unique_list. code x = None"
proof -
  from assms obtain dict_list out2 items where "convert env dict_list = Inr items"
      and "unique_list = unique items"
    by (auto simp: prepare_def Let_def split: prod.splits sum.splits)
  then show ?thesis
    using convert_code [of env dict_list items] by (simp add: set_unique)
qed

text \<open>
  C1. When \<^verbatim>\<open>prepare\<close> has produced the deduplicated list and in each of the four passes
  through the \<^verbatim>\<open>try\<close> block some probe of the batch raises, \<^verbatim>\<open>search\<close> issues the batch
  four times, reports the attempts 1, 2 and 3 and then that the dead URLs could not be
  filtered, and ends as \<^verbatim>\<open>sorter\<close> does on the deduplicated list, unchanged, in which no
  record has a \<^verbatim>\<open>code\<close>.
\<close>

theorem liveness_all_attempts_fail:
  assumes "prepare env usernames search_terms out = (Inr unique_list, out')"
      and "\<forall>n<4. \<exists>idx<length unique_list. \<exists>e. probe env n idx (get_tasks env unique_list ! idx) = Inl e"
  shows "search env usernames search_terms (inp, out)
           = sorter env unique_list
               (inp, out' @ [ProbeBatch (get_tasks env unique_list), AttemptMsg 1,
                             ProbeBatch (get_tasks env unique_list), AttemptMsg 2,
                             ProbeBatch (get_tasks env unique_list), AttemptMsg 3,
                             ProbeBatch (get_tasks env unique_list), CouldNotFilter])
         \<and> (\<forall>item\<in>set unique_list. code item = None)"
proof -
  have dead: "check_urls env n unique_list = None" if "n < 4" for n
    using assms(2) that check_urls_None [of _ unique_list env n] by blast
  have "retry_loop env 0 unique_list (inp, out')
          = sorter env unique_list
               (inp, out' @ [ProbeBatch (get_tasks env unique_list), AttemptMsg 1,
                             ProbeBatch (get_tasks env unique_list), AttemptMsg 2,
                             ProbeBatch (get_tasks env unique_list), AttemptMsg 3,
                             ProbeBatch (get_tasks env unique_list), CouldNotFilter])"
  proof -
    have "retry_loop env 0 unique_list (inp, out')
            = retry_loop env 1 unique_list
                (inp, out' @ [ProbeBatch (get_tasks env unique_list), AttemptMsg 1])"
      using retry_loop_again [of env 0 unique_list inp out'] dead [of 0] by simp
    also have "\<dots> = retry_loop env 2 unique_list
                (inp, out' @ [ProbeBatch (get_tasks env unique_list), AttemptMsg 1,
                              ProbeBatch (get_tasks env unique_list), AttemptMsg 2])"
      using retry_loop_again [of env 1 unique_list inp] dead [of 1]
      by (simp add: numeral_2_eq_2)
    also have "\<dots> = retry_loop env 3 unique_list
                (inp, out' @ [ProbeBatch (get_tasks env unique_list), AttemptMsg 1,
                              ProbeBatch (get_tasks env unique_list), AttemptMsg 2,
                              ProbeBatch (get_tasks env unique_list), AttemptMsg 3])"
      using retry_loop_again [of env 2 unique_list inp] dead [of 2]
      by (simp add: numeral_3_eq_3 numeral_2_eq_2)
    also have "\<dots> = sorter env unique_list
               (inp, out' @ [ProbeBatch (get_tasks env unique_list), AttemptMsg 1,
                             ProbeBatch (get_tasks env unique_list), AttemptMsg 2,
                             ProbeBatch (get_tasks env unique_list), AttemptMsg 3,
                             ProbeBatch (get_tasks env unique_list), CouldNotFilter])"
      using retry_loop_give_up [of env 3 unique_list inp] dead [of 3] by simp
    finally show ?thesis .
  qed
  then show ?thesis
    using assms(1) prepare_code [OF assms(1)] by (simp add: search_def)
qed

theorem liveness_all_attempts_fail_witness:
  "search ex_env_dead [''Alice''] [''linux''] ([''o'', ''n''], [])
     = (Inr (),
        ([], [Searching, QueryGet ''linux'', FoundPotential 2, CheckingDead,
              ProbeBatch (get_tasks ex_env_dead [ex_item ''2'' ''Alice'' 20 None, ex_item ''3'' ''Alice'' 30 None]),
              AttemptMsg 1,
              ProbeBatch (get_tasks ex_env_dead [ex_item ''2'' ''Alice'' 20 None, ex_item ''3'' ''Alice'' 30 None]),
              AttemptMsg 2,
              ProbeBatch (get_tasks ex_env_dead [ex_item ''2'' ''Alice'' 20 None, ex_item ''3'' ''Alice'' 30 None]),
              AttemptMsg 3,
              ProbeBatch (get_tasks ex_env_dead [ex_item ''2'' ''Alice'' 20 None, ex_item ''3'' ''Alice'' 30 None]),
              CouldNotFilter, SortHeader, SortPrompt, Notice,
              Shown (ex_item ''2'' ''Alice'' 20 None), DescrGet ''2'', RelevantLinks ''http://img.example'',
              Shown (ex_item ''3'' ''Alice'' 30 None), DescrGet ''3'', RelevantLinks ''http://img.example'',
              ResortPrompt, ClosingDown]))"
proof -
  let ?ul = "[ex_item ''2'' ''Alice'' 20 None, ex_item ''3'' ''Alice'' 30 None]"
  have p: "prepare ex_env_dead [''Alice''] [''linux''] []
             = (Inr ?ul, [Searching, QueryGet ''linux'', FoundPotential 2, CheckingDead])"
    by (simp add: run_defs ex_defs)
  have f: "\<forall>n<4. \<exists>idx<length ?ul. \<exists>e. probe ex_env_dead n idx (get_tasks ex_env_dead ?ul ! idx) = Inl e"
    by (auto simp: ex_env_dead_def)
  have "search ex_env_dead [''Alice''] [''linux''] ([''o'', ''n''], [])
          = sorter ex_env_dead ?ul
              ([''o'', ''n''],
               [Searching, QueryGet ''linux'', FoundPotential 2, CheckingDead]
                 @ [ProbeBatch (get_tasks ex_env_dead ?ul), AttemptMsg 1,
                    ProbeBatch (get_tasks ex_env_dead ?ul), AttemptMsg 2,
                    ProbeBatch (get_tasks ex_env_dead ?ul), AttemptMsg 3,
                    ProbeBatch (get_tasks ex_env_dead ?ul), CouldNotFilter])"
    using liveness_all_attempts_fail [OF p f, of "[''o'', ''n'']"] by blast
  then show ?thesis
    by (simp add: run_defs ex_defs)
qed

text \<open>
  C2. When every probe of the batch dispatched at \<^verbatim>\<open>counter = n\<close> returns a status,
  the probe of the \<open>i\<close>-th record returning \<open>st i\<close>, then \<^verbatim>\<open>check_urls\<close> returns the
  records in their order, the \<open>i\<close>-th with \<^verbatim>\<open>code\<close> set to \<open>st i\<close>, and the \<^verbatim>\<open>try\<close> block
  calls \<^verbatim>\<open>sorter\<close> with exactly the records whose status is not 404, in that same order.
  The order in which the probes complete is not an input of \<^verbatim>\<open>check_urls\<close>: \<^verbatim>\<open>gather\<close>
  returns the responses by position. For three records answering 404, 200 and 500 the
  second and the third reach \<^verbatim>\<open>sorter\<close>.
\<close>

theorem attempt_success_filters_404:
  assumes "\<forall>idx<length unique_list. probe env n idx (get_tasks env unique_list ! idx) = Inr (st idx)"
  shows "check_urls env n unique_list
           = Some (map (\<lambda>i. (unique_list ! i)\<lparr>code := Some (st i)\<rparr>) [0..<length unique_list])
         \<and> attempt env n unique_list (inp, out)
           = (case sorter env
                     (map (\<lambda>i. (unique_list ! i)\<lparr>code := Some (st i)\<rparr>)
                        (filter (\<lambda>i. st i \<noteq> 404) [0..<length unique_list]))
                     (inp, out @ [ProbeBatch (get_tasks env unique_list),
                                  FoundWorking (length (filter (\<lambda>i. st i \<noteq> 404) [0..<length unique_list]))])
              of (Inr u, w') \<Rightarrow> Inl w'
               | (Inl e, w') \<Rightarrow>
                   Inr (map (\<lambda>i. (unique_list ! i)\<lparr>code := Some (st i)\<rparr>) [0..<length unique_list], w'))"
proof -
  let ?checked = "map (\<lambda>i. (unique_list ! i)\<lparr>code := Some (st i)\<rparr>) [0..<length unique_list]"
  have c: "check_urls env n unique_list = Some ?checked"
    by (rule check_urls_Some [OF assms])
  have f: "filter (\<lambda>item. code item \<noteq> Some 404) ?checked
             = map (\<lambda>i. (unique_list ! i)\<lparr>code := Some (st i)\<rparr>)
                 (filter (\<lambda>i. st i \<noteq> 404) [0..<length unique_list])"
    by (simp add: filter_map o_def)
  show ?thesis
    unfolding attempt_def by (simp add: c f del: upt_Suc map_upt_Suc)
qed



theorem attempt_success_filters_404_witness:
  "check_urls ex_env_p 0
       [ex_item ''1'' ''Bob'' 10 None, ex_item ''2'' ''Alice'' 20 None, ex_item ''3'' ''Alice'' 30 None]
     = Some [ex_item ''1'' ''Bob'' 10 (Some 404), ex_item ''2'' ''Alice'' 20 (Some 200),
             ex_item ''3'' ''Alice'' 30 (Some 500)]
   \<and> attempt ex_env_p 0
       [ex_item ''1'' ''Bob'' 10 None, ex_item ''2'' ''Alice'' 20 None, ex_item ''3'' ''Alice'' 30 None]
       ([''o'', ''n''], [])
     = Inl ([], [ProbeBatch (get_tasks ex_env_p
                    [ex_item ''1'' ''Bob'' 10 None, ex_item ''2'' ''Alice'' 20 None,
                     ex_item ''3'' ''Alice'' 30 None]),
                 FoundWorking 2, SortHeader, SortPrompt, Notice,
                 Shown (ex_item ''2'' ''Alice'' 20 (Some 200)), DescrGet ''2'',
                 RelevantLinks ''http://img.example'',
                 Shown (ex_item ''3'' ''Alice'' 30 (Some 500)), DescrGet ''3'',
                 RelevantLinks ''http://img.example'',
                 ResortPrompt, ClosingDown])"
proof -
  let ?ul = "[ex_item ''1'' ''Bob'' 10 None, ex_item ''2'' ''Alice'' 20 None, ex_item ''3'' ''Alice'' 30 None]"
  let ?st = "\<lambda>idx::nat. if idx = 0 then 404 else if idx = 1 then 200 else (500::int)"
  have h: "\<forall>idx<length ?ul. probe ex_env_p 0 idx (get_tasks ex_env_p ?ul ! idx) = Inr (?st idx)"
    by (simp add: ex_env_p_def)
  show ?thesis
    using attempt_success_filters_404 [OF h, of "[''o'', ''n'']" "[]"]
    by (simp add: run_defs ex_defs)
qed


section \<open>Display and enrichment\<close>

lemma display_abort:
  assumes "k < length results"
      and "idx + k < MAX_RESULTS_WITH_LINKS"
      and "\<forall>r\<in>set (take k results). fmt env r = Inr () \<and> api_t env (id_key r) = Inr (descr r)"
      and "fmt env (results ! k) = Inr ()"
      and "api_t env (id_key (results ! k)) = Inl e"
  shows "display env idx results out
           = (Inl e,
              out @ concat (map (\<lambda>r. [Shown r, DescrGet (id_key r), RelevantLinks (descr r)]) (take k results))
                  @ [Shown (results ! k), DescrGet (id_key (results ! k))])"
  using assms
proof (induction results arbitrary: idx k out)
  case Nil
  then show ?case by simp
next
  case (Cons r results)
  show ?case
  proof (cases k)
    case 0
    with Cons.prems show ?thesis by simp
  next
    case (Suc k')
    have hd: "fmt env r = Inr ()" "api_t env (id_key r) = Inr (descr r)" "idx < MAX_RESULTS_WITH_LINKS"
      using Cons.prems Suc by simp_all
    have "display env (Suc idx) results (out @ [Shown r, DescrGet (id_key r), RelevantLinks (descr r)])
            = (Inl e,
               (out @ [Shown r, DescrGet (id_key r), RelevantLinks (descr r)])
                 @ concat (map (\<lambda>r. [Shown r, DescrGet (id_key r), RelevantLinks (descr r)]) (take k' results))
                 @ [Shown (results ! k'), DescrGet (id_key (results ! k'))])"
      by (rule Cons.IH) (use Cons.prems Suc in simp_all)
    then show ?thesis
      using hd Suc by simp
  qed
qed

text \<open>
  C4, as the specification states it, fails: with two records to display and the
  description request failing for the first one only, the second record is never
  displayed. The exception leaves \<^verbatim>\<open>printer\<close> and \<^verbatim>\<open>sorter\<close>, is caught by the handler of
  line 158, and the batch of probes is issued again, three more times, until \<^verbatim>\<open>search\<close>
  ends with the exception.
\<close>

theorem enrichment_failure_counterexample:
  "search ex_env_t [''Alice''] [''linux''] ([''o'', ''o'', ''o'', ''o'', ''o''], [])
     = (Inl RequestException,
        ([], [Searching, QueryGet ''linux'', FoundPotential 2, CheckingDead,
              ProbeBatch (get_tasks ex_env_t [ex_item ''2'' ''Alice'' 20 None, ex_item ''3'' ''Alice'' 30 None]),
              FoundWorking 2, SortHeader, SortPrompt, Notice,
              Shown (ex_item ''2'' ''Alice'' 20 (Some 200)), DescrGet ''2'',
              AttemptMsg 1,
              ProbeBatch (get_tasks ex_env_t [ex_item ''2'' ''Alice'' 20 None, ex_item ''3'' ''Alice'' 30 None]),
              FoundWorking 2, SortHeader, SortPrompt, Notice,
              Shown (ex_item ''2'' ''Alice'' 20 (Some 200)), DescrGet ''2'',
              AttemptMsg 2,
              ProbeBatch (get_tasks ex_env_t [ex_item ''2'' ''Alice'' 20 None, ex_item ''3'' ''Alice'' 30 None]),
              FoundWorking 2, SortHeader, SortPrompt, Notice,
              Shown (ex_item ''2'' ''Alice'' 20 (Some 200)), DescrGet ''2'',
              AttemptMsg 3,
              ProbeBatch (get_tasks ex_env_t [ex_item ''2'' ''Alice'' 20 None, ex_item ''3'' ''Alice'' 30 None]),
              FoundWorking 2, SortHeader, SortPrompt, Notice,
              Shown (ex_item ''2'' ''Alice'' 20 (Some 200)), DescrGet ''2'',
              CouldNotFilter, SortHeader, SortPrompt, Notice,
              Shown (ex_item ''2'' ''Alice'' 20 (Some 200)), DescrGet ''2'']))
   \<and> api_t ex_env_t ''3'' = Inr ''http://img.example''"
  by (simp add: search_def retry_loop.simps attempt_def check_urls_def enumerate_eq_zip run_defs ex_defs)

text \<open>
  C4, amended. A failure of the description request for the record at position \<open>k\<close>,
  among the first 100, is not handled in \<^verbatim>\<open>printer\<close>: the records before it have been
  displayed with their links, the record itself without, no later record is displayed
  and no line is read, and \<^verbatim>\<open>printer\<close> ends with the exception.
\<close>

theorem printer_enrichment_failure:
  assumes "k < length results"
      and "k < MAX_RESULTS_WITH_LINKS"
      and "\<forall>r\<in>set (take k results). fmt env r = Inr () \<and> api_t env (id_key r) = Inr (descr r)"
      and "fmt env (results ! k) = Inr ()"
      and "api_t env (id_key (results ! k)) = Inl e"
  shows "printer env results (inp, out)
           = (Inl e,
              (inp,
               out @ [Notice]
                   @ concat (map (\<lambda>r. [Shown r, DescrGet (id_key r), RelevantLinks (descr r)]) (take k results))
                   @ [Shown (results ! k), DescrGet (id_key (results ! k))]))"
proof -
  have "display env 0 results (out @ [Notice])
          = (Inl e,
             (out @ [Notice])
               @ concat (map (\<lambda>r. [Shown r, DescrGet (id_key r), RelevantLinks (descr r)]) (take k results))
               @ [Shown (results ! k), DescrGet (id_key (results ! k))])"
    by (rule display_abort) (use assms in simp_all)
  then show ?thesis by simp
qed

theorem printer_enrichment_failure_witness:
  "printer ex_env_t
       [ex_item ''1'' ''Bob'' 10 None, ex_item ''2'' ''Alice'' 20 None, ex_item ''3'' ''Alice'' 30 None]
       ([''n''], [])
     = (Inl RequestException,
        ([''n''], [Notice, Shown (ex_item ''1'' ''Bob'' 10 None), DescrGet ''1'',
                   RelevantLinks ''http://img.example'',
                   Shown (ex_item ''2'' ''Alice'' 20 None), DescrGet ''2'']))"
proof -
  let ?rs = "[ex_item ''1'' ''Bob'' 10 None, ex_item ''2'' ''Alice'' 20 None, ex_item ''3'' ''Alice'' 30 None]"
  have a: "(1::nat) < length ?rs" by simp
  have b: "(1::nat) < MAX_RESULTS_WITH_LINKS" by (simp add: MAX_RESULTS_WITH_LINKS_def)
  have c: "\<forall>r\<in>set (take 1 ?rs). fmt ex_env_t r = Inr () \<and> api_t ex_env_t (id_key r) = Inr ''http://img.example''"
    by (simp add: ex_defs)
  have d: "fmt ex_env_t (?rs ! 1) = Inr ()" by (simp add: ex_defs)
  have e: "api_t ex_env_t (id_key (?rs ! 1)) = Inl RequestException" by (simp add: ex_defs)
  show ?thesis
    using printer_enrichment_failure [OF a b c d e, of "[''n'']" "[]"] by (simp add: ex_item_def)
qed

section \<open>Duplicate identities\<close>

lemma unique_append: "unique (xs @ ys) = unique xs @ filter (\<lambda>y. y \<notin> set xs) (unique ys)"
  by (induction ys rule: rev_induct)
     (auto simp: unique_Nil unique_snoc set_unique simp flip: append_assoc)

lemma unique_append_cong:
  "unique xs = unique xs' \<Longrightarrow> unique ys = unique ys' \<Longrightarrow> unique (xs @ ys) = unique (xs' @ ys')"
  by (metis unique_append set_unique)

lemma unique_append_absorb: "set ys \<subseteq> set xs \<Longrightarrow> unique (xs @ ys) = unique xs"
proof -
  assume "set ys \<subseteq> set xs"
  then have "filter (\<lambda>y. y \<notin> set xs) (unique ys) = []"
    by (auto simp: filter_empty_conv set_unique)
  then show ?thesis by (simp add: unique_append)
qed

lemma unique_concat_cong:
  "length xss = length yss \<Longrightarrow> \<forall>i<length xss. unique (xss ! i) = unique (yss ! i) \<Longrightarrow>
     unique (concat xss) = unique (concat yss)"
proof (induction xss yss rule: list_induct2)
  case Nil
  show ?case by simp
next
  case (Cons x xs y ys)
  have "0 < length (x # xs)" by simp
  with Cons.prems have "unique ((x # xs) ! 0) = unique ((y # ys) ! 0)" by blast
  then have "unique x = unique y" by simp
  moreover have "unique (concat xs) = unique (concat ys)"
  proof (rule Cons.IH, intro allI impI)
    fix i assume "i < length xs"
    then have "Suc i < length (x # xs)" by simp
    with Cons.prems have "unique ((x # xs) ! Suc i) = unique ((y # ys) ! Suc i)" by blast
    then show "unique (xs ! i) = unique (ys ! i)" by simp
  qed
  ultimately show ?case
    using unique_append_cong [of x y "concat xs" "concat ys"] by simp
qed

lemma unique_concat_map_unique:
  "unique (concat (map g (unique us))) = unique (concat (map g us))"
proof (induction us rule: rev_induct)
  case Nil
  show ?case by (simp add: unique_Nil)
next
  case (snoc u us)
  show ?case
  proof (cases "u \<in> set us")
    case True
    then have "set (g u) \<subseteq> set (concat (map g us))" by auto
    then have "unique (concat (map g us) @ g u) = unique (concat (map g us))"
      by (rule unique_append_absorb)
    with True snoc show ?thesis by (simp add: unique_snoc)
  next
    case False
    have "unique (concat (map g (unique us)) @ g u) = unique (concat (map g us) @ g u)"
      by (rule unique_append_cong) (simp_all add: snoc)
    with False show ?thesis by (simp add: unique_snoc)
  qed
qed

lemma unique_map_unique: "unique (map h (unique xs)) = unique (map h xs)"
proof (induction xs rule: rev_induct)
  case Nil
  show ?case by (simp add: unique_Nil)
next
  case (snoc x xs)
  show ?case
  proof (cases "x \<in> set xs")
    case True
    then have "h x \<in> set (map h xs)" by simp
    then have "unique (map h xs @ [h x]) = unique (map h xs)"
      by (simp add: unique_snoc)
    with True snoc show ?thesis by (simp add: unique_snoc)
  next
    case False
    have "unique (map h (unique xs) @ [h x]) = unique (map h xs @ [h x])"
      by (rule unique_append_cong) (simp_all add: snoc)
    with False show ?thesis by (simp add: unique_snoc)
  qed
qed

lemma unique_blocks: "unique (blocks (unique us) datas) = unique (blocks us datas)"
  unfolding blocks_def
  by (rule unique_concat_cong) (simp_all add: unique_concat_map_unique)

lemma set_blocks_unique: "set (blocks (unique us) datas) = set (blocks us datas)"
  by (simp add: set_blocks set_unique)

lemma to_item_error: "to_item env d = Inl e \<Longrightarrow> e = ValueError"
  by (auto simp: to_item_def split: option.splits)

lemma convert_eq:
  "convert env ds =
     (if \<forall>d\<in>set ds. \<exists>x. to_item env d = Inr x
      then Inr (map (\<lambda>d. case to_item env d of Inr x \<Rightarrow> x) ds) else Inl ValueError)"
proof (induction ds)
  case Nil
  show ?case by simp
next
  case (Cons d ds)
  show ?case
  proof (cases "to_item env d")
    case (Inl e)
    then show ?thesis by (auto dest: to_item_error)
  next
    case (Inr x)
    then show ?thesis using Cons by auto
  qed
qed

lemma unique_convert:
  assumes "unique ds = unique ds'"
  shows "(case convert env ds of Inl e \<Rightarrow> Inl e | Inr xs \<Rightarrow> Inr (unique xs))
           = (case convert env ds' of Inl e \<Rightarrow> Inl e | Inr xs \<Rightarrow> Inr (unique xs))"
proof -
  have s: "set ds = set ds'"
    using assms by (metis set_unique)
  have "unique (map h ds) = unique (map h ds')" for h :: "string listing \<Rightarrow> item"
    using assms by (metis unique_map_unique)
  then show ?thesis
    by (simp add: convert_eq s)
qed

lemma aggregate_unique_usernames:
  "(case aggregate env (unique us) ts out of
      (Inl e, out') \<Rightarrow> (Inl e, out')
    | (Inr ds, out') \<Rightarrow> (case convert env ds of Inl e \<Rightarrow> Inl e | Inr xs \<Rightarrow> Inr (unique xs), out'))
   = (case aggregate env us ts out of
      (Inl e, out') \<Rightarrow> (Inl e, out')
    | (Inr ds, out') \<Rightarrow> (case convert env ds of Inl e \<Rightarrow> Inl e | Inr xs \<Rightarrow> Inr (unique xs), out'))"
proof (cases rule: aggregate_cases [of ts env])
  case (ok datas)
  show ?thesis
    using unique_convert [OF unique_blocks, of env us datas]
    by (simp add: aggregate_ok [OF ok])
next
  case (abort k e)
  show ?thesis
    by (simp add: aggregate_abort [OF abort])
qed

lemma prepare_alt:
  "prepare env us ts out =
     (case (case aggregate env us ts (out @ [Searching] @ (if length ts > 50 then [ManyTerms] else [])) of
              (Inl e, out') \<Rightarrow> (Inl e, out')
            | (Inr ds, out') \<Rightarrow> (case convert env ds of Inl e \<Rightarrow> Inl e | Inr xs \<Rightarrow> Inr (unique xs), out'))
      of (Inl e, out') \<Rightarrow> (Inl e, out')
       | (Inr ul, out') \<Rightarrow> (Inr ul, out' @ [FoundPotential (length ul), CheckingDead]))"
  by (simp add: prepare_def Let_def split: prod.splits sum.splits)

lemma prepare_unique_usernames: "prepare env (unique us) ts out = prepare env us ts out"
  by (simp only: prepare_alt aggregate_unique_usernames)

lemma count_list_concat: "count_list (concat xss) r = sum_list (map (\<lambda>xs. count_list xs r) xss)"
  by (induction xss) simp_all

lemma count_list_filter: "count_list (filter P xs) r = (if P r then count_list xs r else 0)"
  by (induction xs) auto

lemma count_list_user_blocks:
  "count_list (concat (map (\<lambda>user. filter (\<lambda>item. username item = user) data) us)) r
     = count_list us (username r) * count_list data r"
  by (induction us) (auto simp: count_list_filter)

lemma count_list_blocks:
  "count_list (blocks us datas) r = count_list us (username r) * count_list (concat datas) r"
  unfolding blocks_def
  by (induction datas) (simp_all add: count_list_user_blocks distrib_left)

text \<open>
  C10. In the accumulated list a record occurs as often as it occurs in the responses,
  times the number of entries of the identity list equal to its \<^verbatim>\<open>username\<close>. The
  deduplicated list that enters the liveness check, and with it the whole run of
  \<^verbatim>\<open>search\<close>, is the same as for the identity list deduplicated in first-seen order.
\<close>

theorem duplicate_identities_collapse:
  "(\<forall>dict_list out'. aggregate env usernames search_terms out = (Inr dict_list, out') \<longrightarrow>
      (\<exists>datas. length datas = length search_terms
         \<and> (\<forall>j<length search_terms. api_q env j (search_terms ! j) = Inr (datas ! j))
         \<and> (\<forall>r. count_list dict_list r
                   = count_list usernames (username r) * count_list (concat datas) r)))
   \<and> prepare env usernames search_terms out = prepare env (unique usernames) search_terms out
   \<and> search env usernames search_terms w = search env (unique usernames) search_terms w"
proof (intro conjI allI impI)
  fix dict_list out'
  assume a: "aggregate env usernames search_terms out = (Inr dict_list, out')"
  show "\<exists>datas. length datas = length search_terms
         \<and> (\<forall>j<length search_terms. api_q env j (search_terms ! j) = Inr (datas ! j))
         \<and> (\<forall>r. count_list dict_list r
                   = count_list usernames (username r) * count_list (concat datas) r)"
  proof (cases rule: aggregate_cases [of search_terms env])
    case (ok datas)
    with a aggregate_ok [OF ok, of usernames out] have "dict_list = blocks usernames datas"
      by simp
    with ok show ?thesis
      by (intro exI [of _ datas]) (simp add: count_list_blocks)
  next
    case (abort k e)
    with a aggregate_abort [OF abort, of usernames out] show ?thesis by simp
  qed
next
  show "prepare env usernames search_terms out = prepare env (unique usernames) search_terms out"
    by (simp add: prepare_unique_usernames)
next
  show "search env usernames search_terms w = search env (unique usernames) search_terms w"
    by (simp add: search_def prepare_unique_usernames)
qed


theorem duplicate_identities_collapse_witness:
  "aggregate ex_env [''Alice'', ''Bob'', ''Alice''] [''linux''] []
     = (Inr [ex_raw ''2'' ''Alice'' ''20'', ex_raw ''3'' ''Alice'' ''30'', ex_raw ''1'' ''Bob'' ''10'',
             ex_raw ''2'' ''Alice'' ''20'', ex_raw ''3'' ''Alice'' ''30''],
        [QueryGet ''linux''])
   \<and> count_list [ex_raw ''2'' ''Alice'' ''20'', ex_raw ''3'' ''Alice'' ''30'', ex_raw ''1'' ''Bob'' ''10'',
                 ex_raw ''2'' ''Alice'' ''20'', ex_raw ''3'' ''Alice'' ''30'']
         (ex_raw ''2'' ''Alice'' ''20'')
     = count_list [''Alice'', ''Bob'', ''Alice''] ''Alice'' * 1
   \<and> unique [''Alice'', ''Bob'', ''Alice''] = [''Alice'', ''Bob'']
   \<and> prepare ex_env [''Alice'', ''Bob'', ''Alice''] [''linux''] []
     = (Inr [ex_item ''2'' ''Alice'' 20 None, ex_item ''3'' ''Alice'' 30 None, ex_item ''1'' ''Bob'' 10 None],
        [Searching, QueryGet ''linux'', FoundPotential 3, CheckingDead])"
proof -
  let ?us = "[''Alice'', ''Bob'', ''Alice'']"
  let ?d = "[ex_raw ''1'' ''Bob'' ''10'', ex_raw ''2'' ''Alice'' ''20'', ex_raw ''3'' ''Alice'' ''30'']"
  let ?l = "[ex_raw ''2'' ''Alice'' ''20'', ex_raw ''3'' ''Alice'' ''30'', ex_raw ''1'' ''Bob'' ''10'',
             ex_raw ''2'' ''Alice'' ''20'', ex_raw ''3'' ''Alice'' ''30'']"
  note inst = duplicate_identities_collapse [of ex_env ?us "[''linux'']" "[]" "([], [])"]
  have a: "aggregate ex_env ?us [''linux''] [] = (Inr ?l, [QueryGet ''linux''])"
    by (simp add: aggregate_def ex_env_def ex_raw_def)
  from inst a obtain datas where d: "length datas = length [''linux'']"
      "\<forall>j<length [''linux'']. api_q ex_env j ([''linux''] ! j) = Inr (datas ! j)"
      "\<forall>r. count_list ?l r = count_list ?us (username r) * count_list (concat datas) r"
    by blast
  from d(1) obtain x where x: "datas = [x]"
    by (cases datas) auto
  with d(2) have "x = ?d"
    by (simp add: ex_env_def)
  with x have cd: "concat datas = ?d"
    by simp
  from d(3) have "count_list ?l (ex_raw ''2'' ''Alice'' ''20'')
                    = count_list ?us (username (ex_raw ''2'' ''Alice'' ''20''))
                        * count_list (concat datas) (ex_raw ''2'' ''Alice'' ''20'')"
    by (rule spec)
  then have c: "count_list ?l (ex_raw ''2'' ''Alice'' ''20'') = count_list ?us ''Alice'' * 1"
    unfolding cd by (simp add: ex_raw_def)
  have u: "unique ?us = [''Alice'', ''Bob'']"
    by (simp add: unique_def)
  have "prepare ex_env ?us [''linux''] [] = prepare ex_env (unique ?us) [''linux''] []"
    using inst by blast
  also have "\<dots> = (Inr [ex_item ''2'' ''Alice'' 20 None, ex_item ''3'' ''Alice'' 30 None,
                          ex_item ''1'' ''Bob'' 10 None],
                     [Searching, QueryGet ''linux'', FoundPotential 3, CheckingDead])"
    unfolding u by (simp add: run_defs ex_defs)
  finally show ?thesis
    using a c u by simp
qed


end
